theory Spec2Isabelle
  imports Main "HOL-Library.AList"
begin

section \<open>Python strings as used by pdf-to-gpt.py\<close>

text \<open>
  A Python \<open>str\<close> is modelled as a \<^typ>\<open>string\<close>: one \<^typ>\<open>char\<close> per code point, for the
  code points below 256. The three string operations the script relies on are
  \<open>str.strip()\<close>, \<open>str.lower()\<close> and \<open>re.sub(r'\s+', ' ', s)\<close>. \<open>str.strip()\<close> and the
  class \<open>\s\<close> of a \<open>str\<close> pattern use the same test, \<open>str.isspace\<close>; below 256 it holds
  for the code points 9 to 13, 28 to 32, 133 and 160.
\<close>

definition isspace :: "char \<Rightarrow> bool" where
  "isspace c =
     (let n = (of_char c :: nat)
      in (9 \<le> n \<and> n \<le> 13) \<or> (28 \<le> n \<and> n \<le> 32) \<or> n = 133 \<or> n = 160)"

text \<open>\<open>s.strip()\<close>: leading and trailing whitespace removed.\<close>

definition strip :: "string \<Rightarrow> string" where
  "strip s = rev (dropWhile isspace (rev (dropWhile isspace s)))"

text \<open>
  \<open>s.lower()\<close>: below 256 the upper-case letters are A to Z and the code points 192 to
  222 except 215 (the multiplication sign); each is 32 below its lower-case letter.
\<close>

definition lower_char :: "char \<Rightarrow> char" where
  "lower_char c =
     (let n = (of_char c :: nat)
      in if (65 \<le> n \<and> n \<le> 90) \<or> (192 \<le> n \<and> n \<le> 222 \<and> n \<noteq> 215)
         then char_of (n + 32) else c)"

definition lower :: "string \<Rightarrow> string" where
  "lower s = map lower_char s"

text \<open>
  \<open>re.sub(r'\s+', ' ', s)\<close>: every maximal run of whitespace is replaced by one space.
\<close>

function collapse_ws :: "string \<Rightarrow> string" where
  "collapse_ws [] = []"
| "collapse_ws (c # cs) =
     (if isspace c then CHR '' '' # collapse_ws (dropWhile isspace cs)
      else c # collapse_ws cs)"
  by pat_completeness auto
termination
  by (relation "measure length") (auto simp: less_Suc_eq_le length_dropWhile_le)

text \<open>
  The normalisation of extracted text, the same expression on both paths
  (lines 85 and 126): \<open>re.sub(r'\s+', ' ', text).strip()\<close>.
\<close>

definition normalize_text :: "string \<Rightarrow> string" where
  "normalize_text t = strip (collapse_ws t)"

text \<open>\<open>sep.join(xs)\<close>.\<close>

fun join :: "string \<Rightarrow> string list \<Rightarrow> string" where
  "join sep [] = []"
| "join sep [x] = x"
| "join sep (x # y # ys) = x @ sep @ join sep (y # ys)"

text \<open>\<open>s.rfind(c)\<close>: the index of the last occurrence of \<open>c\<close>, or -1.\<close>

definition rfind :: "char \<Rightarrow> string \<Rightarrow> int" where
  "rfind c s =
     (if c \<in> set s then int (length s) - 1 - int (length (takeWhile (\<lambda>x. x \<noteq> c) (rev s)))
      else - 1)"

text \<open>
  \<open>os.path.basename(p)\<close> and the first component of \<open>os.path.splitext(p)\<close>, as
  \<open>posixpath\<close> defines them: \<open>p[p.rfind('/') + 1:]\<close>, and \<open>p[:dotIndex]\<close> when the last
  dot lies after the last separator and some character between the separator and
  that dot is not a dot, \<open>p\<close> otherwise.
\<close>

definition basename :: "string \<Rightarrow> string" where
  "basename p = drop (nat (rfind CHR ''/'' p + 1)) p"

definition splitext_root :: "string \<Rightarrow> string" where
  "splitext_root p =
     (let sepIndex = rfind CHR ''/'' p;
          dotIndex = rfind CHR ''.'' p
      in if dotIndex > sepIndex \<and>
            list_ex (\<lambda>c. c \<noteq> CHR ''.'')
              (take (nat dotIndex - nat (sepIndex + 1)) (drop (nat (sepIndex + 1)) p))
         then take (nat dotIndex) p
         else p)"

section \<open>Python values, dictionaries and exceptions\<close>

text \<open>
  A \<open>dict\<close> keeps its keys in insertion order and holds each key once: an association
  list in which \<open>d[k] = v\<close> replaces the value of an existing key in place and appends a
  new key at the end. \<open>d.get(k)\<close> is \<^const>\<open>map_of\<close>, \<open>len(d)\<close> is \<^const>\<open>length\<close>, and an
  empty \<open>dict\<close> is false in a condition.
\<close>

type_synonym ('k, 'v) dict = "('k \<times> 'v) list"

definition dict_set :: "('k, 'v) dict \<Rightarrow> 'k \<Rightarrow> 'v \<Rightarrow> ('k, 'v) dict" where
  "dict_set d k v = AList.update k v d"

text \<open>\<open>dict(pairs)\<close>, a \<open>dict\<close> display or comprehension: the pairs stored from left to right.\<close>

definition dict_of :: "('k \<times> 'v) list \<Rightarrow> ('k, 'v) dict" where
  "dict_of kvs = foldl (\<lambda>d (k, v). dict_set d k v) [] kvs"

text \<open>The values stored in a citation record.\<close>

datatype pyval = PStr string | PInt int | PNone

type_synonym citation = "(string, pyval) dict"

text \<open>The exceptions that the three \<open>try\<close> blocks catch.\<close>

datatype exn = OSError | ReadError | AttributeError | PdfError | RequestError

section \<open>load_sharepoint_links\<close>

text \<open>
  The CSV file as \<open>open\<close> and \<open>csv.reader\<close> present it: the file cannot be opened, or it
  is a sequence of lines, each of which is a list of fields or makes the reader raise
  (a decoding error, a \<open>csv.Error\<close>) when it is asked for.
\<close>

datatype csv_line = Line "string list" | BadLine

datatype csv_file = NoFile | CsvFile "csv_line list"

text \<open>
  What \<open>csv.DictReader\<close> makes of a line: \<open>dict(zip(fieldnames, row))\<close>; the fields beyond
  the header are stored under the key \<open>None\<close> (\<open>restkey\<close>), and the header names beyond
  the line get the value \<open>None\<close> (\<open>restval\<close>).
\<close>

datatype cell = Given string | Missing | Surplus "string list"

definition dictreader_row :: "string list \<Rightarrow> string list \<Rightarrow> (string option, cell) dict" where
  "dictreader_row fieldnames row =
     (let d = dict_of (zip (map Some fieldnames) (map Given row));
          lf = length fieldnames;
          lr = length row
      in if lf < lr then dict_set d None (Surplus (drop lf row))
         else if lf > lr then foldl (\<lambda>d key. dict_set d (Some key) Missing) d (drop lr fieldnames)
         else d)"

text \<open>Line 28: \<open>{key.strip(): value for key, value in row.items() if key is not None}\<close>.\<close>

definition strip_keys :: "(string option, cell) dict \<Rightarrow> (string, cell) dict" where
  "strip_keys row = dict_of [(strip key, v). (Some key, v) \<leftarrow> row]"

text \<open>
  \<open>row.get(key, "").strip()\<close>: the default is used only when the key is absent; a value
  \<open>None\<close> has no \<open>strip\<close>.
\<close>

definition get_strip :: "(string, cell) dict \<Rightarrow> string \<Rightarrow> exn + string" where
  "get_strip row key =
     (case map_of row key of
        None \<Rightarrow> Inr (strip [])
      | Some (Given s) \<Rightarrow> Inr (strip s)
      | Some _ \<Rightarrow> Inl AttributeError)"

text \<open>\<open>not doc_name_raw\<close>: the key is absent, or its value is \<open>None\<close> or empty.\<close>

definition not_doc_name :: "cell option \<Rightarrow> bool" where
  "not_doc_name v =
     (case v of
        None \<Rightarrow> True
      | Some Missing \<Rightarrow> True
      | Some (Given s) \<Rightarrow> s = []
      | Some (Surplus xs) \<Rightarrow> xs = [])"

type_synonym sp_entry = "(string, string) dict"

type_synonym registry = "(string, sp_entry) dict"

text \<open>The diagnostics that \<open>load_sharepoint_links\<close> prints.\<close>

datatype diag =
    Headers "string list option"
  | NoDocumentName "(string, cell) dict"
  | LoadError exn

text \<open>Lines 37 to 43, for a row whose document name passed the test of line 34.\<close>

definition store_row :: "(string, cell) dict \<Rightarrow> registry \<Rightarrow> exn + registry" where
  "store_row row mapping =
     (case map_of row ''Document Name'' of
        Some (Given doc_name_raw) \<Rightarrow>
          (let doc_name = lower (strip doc_name_raw)
           in case get_strip row ''Title'' of
                Inl e \<Rightarrow> Inl e
              | Inr title \<Rightarrow>
                  (case get_strip row ''Web Link'' of
                     Inl e \<Rightarrow> Inl e
                   | Inr web_link \<Rightarrow>
                       Inr (dict_set mapping doc_name
                              (dict_of [(''title'', title), (''web_link'', web_link)]))))
      | _ \<Rightarrow> Inl AttributeError)"

text \<open>
  The \<open>for\<close> loop of line 26 over the lines after the header. \<open>DictReader\<close> passes over
  empty lines. The loop returns the exception that ended it, if any, with the mapping
  and the diagnostics as they were at that point.
\<close>

fun rows_loop ::
  "string list \<Rightarrow> csv_line list \<Rightarrow> registry \<times> diag list \<Rightarrow> exn option \<times> registry \<times> diag list"
where
  "rows_loop fieldnames [] st = (None, st)"
| "rows_loop fieldnames (BadLine # ls) st = (Some ReadError, st)"
| "rows_loop fieldnames (Line [] # ls) st = rows_loop fieldnames ls st"
| "rows_loop fieldnames (Line (f # fs) # ls) (mapping, out) =
     (let row = strip_keys (dictreader_row fieldnames (f # fs))
      in if not_doc_name (map_of row ''Document Name'')
         then rows_loop fieldnames ls (mapping, out @ [NoDocumentName row])
         else (case store_row row mapping of
                 Inl e \<Rightarrow> (Some e, mapping, out)
               | Inr mapping' \<Rightarrow> rows_loop fieldnames ls (mapping', out)))"

text \<open>
  The body of the \<open>try\<close> block. The header is read when line 25 prints
  \<open>reader.fieldnames\<close>; in an empty file there is none and the loop has nothing to do.
\<close>

definition load_try :: "csv_file \<Rightarrow> exn option \<times> registry \<times> diag list" where
  "load_try file =
     (case file of
        NoFile \<Rightarrow> (Some OSError, [], [])
      | CsvFile [] \<Rightarrow> (None, [], [Headers None])
      | CsvFile (BadLine # ls) \<Rightarrow> (Some ReadError, [], [])
      | CsvFile (Line fieldnames # ls) \<Rightarrow> rows_loop fieldnames ls ([], [Headers (Some fieldnames)]))"

text \<open>
  The function, applied to what the file system holds at \<open>csv_path\<close>. The \<open>except\<close>
  clause prints the exception and execution goes on to \<open>return mapping\<close>, so the
  function returns a mapping on every path.
\<close>

definition load_sharepoint_links :: "csv_file \<Rightarrow> registry" where
  "load_sharepoint_links csvfile =
     (case load_try csvfile of (raised, mapping, out) \<Rightarrow> mapping)"

text \<open>What the function has printed when it returns.\<close>

definition load_diagnostics :: "csv_file \<Rightarrow> diag list" where
  "load_diagnostics csvfile =
     (case load_try csvfile of
        (None, mapping, out) \<Rightarrow> out
      | (Some e, mapping, out) \<Rightarrow> out @ [LoadError e])"

section \<open>extract_pdf_info\<close>

text \<open>
  The PDF as \<open>open\<close> and \<open>PyPDF2.PdfReader\<close> present it: the file cannot be opened or
  parsed, or it has a metadata object (possibly none, possibly without a title) and a
  sequence of pages. \<open>page.extract_text()\<close> gives a string or \<open>None\<close>; a page that
  cannot be read makes the loop raise when it is reached.
\<close>

datatype pdf_metadata = Metadata (md_title: "string option")

datatype pdf_page = PageText "string option" | PageError

datatype pdf_file = NoPdf | PdfDoc "pdf_metadata option" "pdf_page list"

text \<open>
  Line 78: \<open>metadata.title if metadata and metadata.title else
  os.path.splitext(file_name)[0]\<close>.
\<close>

definition metadata_title :: "pdf_metadata option \<Rightarrow> string \<Rightarrow> string" where
  "metadata_title metadata file_name =
     (case metadata of
        Some (Metadata (Some t)) \<Rightarrow> if t \<noteq> [] then t else splitext_root file_name
      | _ \<Rightarrow> splitext_root file_name)"

text \<open>
  Lines 80 and 81: \<open>if sp_data: doc_title = sp_data.get("title", doc_title)\<close>. The test
  fails when there is no entry and when the entry is an empty \<open>dict\<close>.
\<close>

definition override_title :: "sp_entry option \<Rightarrow> string \<Rightarrow> string" where
  "override_title sp_data doc_title =
     (case sp_data of
        None \<Rightarrow> doc_title
      | Some e \<Rightarrow>
          if e \<noteq> [] then (case map_of e ''title'' of Some t \<Rightarrow> t | None \<Rightarrow> doc_title)
          else doc_title)"

text \<open>
  Lines 93 and 94: \<open>if sp_data and sp_data.get("web_link"):
  citation_entry['web_link'] = sp_data.get("web_link")\<close>.
\<close>

definition add_web_link :: "sp_entry option \<Rightarrow> citation \<Rightarrow> citation" where
  "add_web_link sp_data citation_entry =
     (case sp_data of
        None \<Rightarrow> citation_entry
      | Some e \<Rightarrow>
          (case map_of e ''web_link'' of
             None \<Rightarrow> citation_entry
           | Some w \<Rightarrow>
               if e \<noteq> [] \<and> w \<noteq> [] then dict_set citation_entry ''web_link'' (PStr w)
               else citation_entry))"

text \<open>
  The loop of line 83, \<open>for i, page in enumerate(reader.pages)\<close>, with the list
  \<open>citations\<close> as it grows; an exception ends it and leaves the list as it is.
\<close>

fun pages_loop ::
  "string \<Rightarrow> sp_entry option \<Rightarrow> nat \<Rightarrow> pdf_page list \<Rightarrow> citation list \<Rightarrow> exn option \<times> citation list"
where
  "pages_loop doc_title sp_data i [] citations = (None, citations)"
| "pages_loop doc_title sp_data i (PageError # ps) citations = (Some PdfError, citations)"
| "pages_loop doc_title sp_data i (PageText t # ps) citations =
     (let text = normalize_text (case t of Some s \<Rightarrow> s | None \<Rightarrow> []);
          citation_entry = dict_of
            [(''source_type'', PStr ''pdf''),
             (''document_title'', PStr doc_title),
             (''page_number'', PInt (int i + 1)),
             (''text'', PStr text)]
      in pages_loop doc_title sp_data (i + 1) ps
           (citations @ [add_web_link sp_data citation_entry]))"

text \<open>The body of the \<open>try\<close> block of lines 73 to 95.\<close>

definition pdf_try ::
  "pdf_file \<Rightarrow> string \<Rightarrow> sp_entry option \<Rightarrow> exn option \<times> citation list" where
  "pdf_try file file_name sp_data =
     (case file of
        NoPdf \<Rightarrow> (Some PdfError, [])
      | PdfDoc metadata pages \<Rightarrow>
          (let doc_title = override_title sp_data (metadata_title metadata file_name)
           in pages_loop doc_title sp_data 0 pages []))"

text \<open>
  The function, with what the file system holds at \<open>pdf_path\<close> as its first argument.
  The \<open>except\<close> clause prints the exception and execution goes on to
  \<open>return citations\<close>.
\<close>

definition extract_pdf_info :: "pdf_file \<Rightarrow> string \<Rightarrow> registry \<Rightarrow> citation list" where
  "extract_pdf_info file pdf_path sharepoint_links =
     (let file_name = strip (basename pdf_path);
          file_key = lower file_name;
          sp_data = map_of sharepoint_links file_key
      in snd (pdf_try file file_name sp_data))"

section \<open>extract_web_info\<close>

text \<open>
  What \<open>requests.get\<close> and \<open>BeautifulSoup\<close> give for a URL: a failure (no connection, a
  timeout, a status that \<open>raise_for_status\<close> rejects, a URL that is none, or any other
  exception before the record is built), or a parsed page with the text of its first
  \<open>title\<close> element, if it has one, and its \<open>stripped_strings\<close>. A \<open>Tag\<close> is true in a
  condition whatever it contains.
\<close>

datatype web_page = WebPage (title_tag: "string option") (stripped_strings: "string list")

datatype web_response = FetchError | Fetched web_page

text \<open>The body of the \<open>try\<close> block of lines 116 to 134.\<close>

definition web_try :: "web_response \<Rightarrow> string \<Rightarrow> exn option \<times> citation list" where
  "web_try response url =
     (case response of
        FetchError \<Rightarrow> (Some RequestError, [])
      | Fetched soup \<Rightarrow>
          (let doc_title = (case title_tag soup of Some t \<Rightarrow> strip t | None \<Rightarrow> url);
               full_text = normalize_text (join '' '' (stripped_strings soup))
           in (None,
               [dict_of
                  [(''source_type'', PStr ''web''),
                   (''document_title'', PStr doc_title),
                   (''page_number'', PNone),
                   (''text'', PStr full_text),
                   (''url'', PStr url)]])))"

text \<open>
  The function, with what the network answers for \<open>url\<close> as its first argument. The
  \<open>except\<close> clause prints the exception and execution goes on to \<open>return citations\<close>.
\<close>

definition extract_web_info :: "web_response \<Rightarrow> string \<Rightarrow> citation list" where
  "extract_web_info response url = snd (web_try response url)"

section \<open>The terms of the specification\<close>

text \<open>
  The data model of the specification calls a field of a record absent when the record
  has no such key or holds \<open>None\<close> (\<open>null\<close>) under it, and present or non-null
  otherwise.
\<close>

definition field_present :: "citation \<Rightarrow> string \<Rightarrow> bool" where
  "field_present r k =
     (case map_of r k of None \<Rightarrow> False | Some PNone \<Rightarrow> False | Some v \<Rightarrow> True)"

text \<open>
  A header is well formed when its names, trimmed, are pairwise distinct and include
  the three columns. A row is complete when it has a field for every name of the
  header. \<open>column\<close> gives the field of a row under a column name, \<open>row_key\<close> the
  document name trimmed and lower-cased, \<open>row_entry\<close> the entry with the trimmed title
  and link.
\<close>

definition well_formed_header :: "string list \<Rightarrow> bool" where
  "well_formed_header h =
     (distinct (map strip h) \<and>
      ''Document Name'' \<in> set (map strip h) \<and>
      ''Title'' \<in> set (map strip h) \<and>
      ''Web Link'' \<in> set (map strip h))"

definition column :: "string list \<Rightarrow> string \<Rightarrow> string list \<Rightarrow> string" where
  "column h name row =
     (case map_of (zip (map strip h) row) name of Some field \<Rightarrow> field | None \<Rightarrow> [])"

definition complete_row :: "string list \<Rightarrow> string list \<Rightarrow> bool" where
  "complete_row h row = (length h \<le> length row)"

definition row_key :: "string list \<Rightarrow> string list \<Rightarrow> string" where
  "row_key h row = lower (strip (column h ''Document Name'' row))"

definition row_entry :: "string list \<Rightarrow> string list \<Rightarrow> sp_entry" where
  "row_entry h row =
     [(''title'', strip (column h ''Title'' row)),
      (''web_link'', strip (column h ''Web Link'' row))]"

section \<open>Properties of the text normalisation\<close>

lemma isspace_space: "isspace (CHR '' '')"
  by (simp add: isspace_def)

lemma dropWhile_eq_self: "dropWhile P xs = xs \<longleftrightarrow> xs = [] \<or> \<not> P (hd xs)"
proof (cases xs)
  case Nil
  then show ?thesis by simp
next
  case (Cons y ys)
  have "dropWhile P ys \<noteq> y # ys"
    using length_dropWhile_le [of P ys] by (auto dest: arg_cong [where f = length])
  with Cons show ?thesis by simp
qed

lemma dropWhile_collapse_ws:
  "xs = [] \<or> \<not> isspace (hd xs) \<Longrightarrow> dropWhile isspace (collapse_ws xs) = collapse_ws xs"
  by (cases xs) auto

lemma dropWhile_collapse_ws_dropWhile:
  "dropWhile isspace (collapse_ws (dropWhile isspace xs)) = collapse_ws (dropWhile isspace xs)"
  by (rule dropWhile_collapse_ws) (metis hd_dropWhile)

lemma collapse_ws_idem: "collapse_ws (collapse_ws s) = collapse_ws s"
proof (induction s rule: collapse_ws.induct)
  case 1
  show ?case by simp
next
  case (2 c cs)
  show ?case
  proof (cases "isspace c")
    case True
    with 2 show ?thesis
      by (simp add: isspace_space dropWhile_collapse_ws_dropWhile)
  next
    case False
    with 2 show ?thesis by simp
  qed
qed

text \<open>
  A string that \<open>collapse_ws\<close> leaves unchanged and that starts with whitespace starts
  with one space, followed by a string of the same kind that starts with none.
\<close>

lemma collapse_ws_fixed_space:
  assumes fx: "collapse_ws (c # zs) = c # zs" and sp: "isspace c"
  shows "c = CHR '' '' \<and> dropWhile isspace zs = zs \<and> collapse_ws zs = zs"
proof -
  from fx sp have c: "c = CHR '' ''" and z: "collapse_ws (dropWhile isspace zs) = zs"
    by simp_all
  have d: "dropWhile isspace zs = zs"
    using dropWhile_collapse_ws_dropWhile [of zs] by (simp add: z)
  with z c show ?thesis by simp
qed

lemma collapse_ws_fixed_prefix:
  "collapse_ws (xs @ ys) = xs @ ys \<Longrightarrow> collapse_ws xs = xs"
proof (induction xs)
  case Nil
  show ?case by simp
next
  case (Cons c cs)
  show ?case
  proof (cases "isspace c")
    case False
    with Cons show ?thesis by simp
  next
    case True
    from Cons.prems have "collapse_ws (c # (cs @ ys)) = c # (cs @ ys)" by simp
    from collapse_ws_fixed_space [OF this True]
    have c: "c = CHR '' ''" and d: "dropWhile isspace (cs @ ys) = cs @ ys"
      and f: "collapse_ws (cs @ ys) = cs @ ys" by simp_all
    from Cons.IH [OF f] have ih: "collapse_ws cs = cs" .
    from d have "dropWhile isspace cs = cs"
      unfolding dropWhile_eq_self by (cases cs) simp_all
    with ih c True show ?thesis by simp
  qed
qed

lemma collapse_ws_fixed_dropWhile:
  assumes "collapse_ws s = s"
  shows "collapse_ws (dropWhile isspace s) = dropWhile isspace s"
proof (cases s)
  case Nil
  then show ?thesis by simp
next
  case (Cons c cs)
  show ?thesis
  proof (cases "isspace c")
    case False
    with Cons assms show ?thesis by simp
  next
    case True
    from assms Cons have "collapse_ws (c # cs) = c # cs" by simp
    from collapse_ws_fixed_space [OF this True] Cons True show ?thesis by simp
  qed
qed

lemma collapse_ws_fixed_strip:
  assumes "collapse_ws s = s"
  shows "collapse_ws (strip s) = strip s"
proof -
  let ?t = "dropWhile isspace s"
  have t: "collapse_ws ?t = ?t"
    using assms by (rule collapse_ws_fixed_dropWhile)
  have "?t = rev (dropWhile isspace (rev ?t)) @ rev (takeWhile isspace (rev ?t))"
    by (metis rev_append rev_rev_ident takeWhile_dropWhile_id)
  with t have "collapse_ws (rev (dropWhile isspace (rev ?t)) @ rev (takeWhile isspace (rev ?t)))
    = rev (dropWhile isspace (rev ?t)) @ rev (takeWhile isspace (rev ?t))"
    by simp
  then have "collapse_ws (rev (dropWhile isspace (rev ?t))) = rev (dropWhile isspace (rev ?t))"
    by (rule collapse_ws_fixed_prefix)
  then show ?thesis by (simp add: strip_def)
qed

lemma strip_idem: "strip (strip s) = strip s"
proof -
  let ?t = "dropWhile isspace s"
  let ?u = "dropWhile isspace (rev ?t)"
  have t: "?t = rev ?u @ rev (takeWhile isspace (rev ?t))"
    by (metis rev_append rev_rev_ident takeWhile_dropWhile_id)
  have "dropWhile isspace ?t = ?t"
    by (rule dropWhile_idem)
  then have "?t = [] \<or> \<not> isspace (hd ?t)"
    by (simp only: dropWhile_eq_self)
  then have "rev ?u = [] \<or> \<not> isspace (hd (rev ?u))"
    by (subst (asm) (1 2) t) (cases "rev ?u", simp_all)
  then have "dropWhile isspace (rev ?u) = rev ?u"
    by (simp only: dropWhile_eq_self)
  then show ?thesis
    by (simp add: strip_def)
qed

text \<open>
  Claim C9. The normalisation of extracted text, \<open>re.sub(r'\s+', ' ', text).strip()\<close>, is
  idempotent: for every string, normalising the normalised text gives the normalised
  text again.
\<close>

theorem normalize_text_idempotent: "normalize_text (normalize_text t) = normalize_text t"
  by (simp add: normalize_text_def collapse_ws_fixed_strip collapse_ws_idem strip_idem)

section \<open>Properties of extract_pdf_info\<close>

lemma map_of_dict_set: "map_of (dict_set d k v) = (map_of d)(k \<mapsto> v)"
  by (simp add: dict_set_def AList.update_conv')

lemma map_of_add_web_link_other:
  "k \<noteq> ''web_link'' \<Longrightarrow> map_of (add_web_link sp_data c) k = map_of c k"
  by (simp add: add_web_link_def map_of_dict_set split: option.splits)

lemma pages_loop_ok_length:
  "PageError \<notin> set ps \<Longrightarrow> length (snd (pages_loop dt sp i ps acc)) = length acc + length ps"
  by (induction dt sp i ps acc rule: pages_loop.induct) (simp_all add: Let_def)

lemma pages_loop_ok_numbers:
  "PageError \<notin> set ps \<Longrightarrow>
   map (\<lambda>r. map_of r ''page_number'') (snd (pages_loop dt sp i ps acc)) =
   map (\<lambda>r. map_of r ''page_number'') acc @
   map (\<lambda>n. Some (PInt (int n))) [Suc i..<Suc i + length ps]"
proof (induction dt sp i ps acc rule: pages_loop.induct)
  case (3 dt sp i t ps acc)
  have "[Suc i..<Suc i + length (PageText t # ps)] =
        Suc i # [Suc (Suc i)..<Suc (Suc i) + length ps]"
    by (simp add: upt_rec)
  with 3 show ?case
    by (simp add: Let_def map_of_add_web_link_other dict_of_def map_of_dict_set)
qed simp_all

text \<open>
  Claim C4. For a PDF that opens and whose pages can all be read, the function emits
  one record per page, and the \<open>page_number\<close> fields of the records, in the order of
  emission, are 1, 2, ..., n, where n is the number of pages.
\<close>

theorem pdf_one_record_per_page:
  assumes "PageError \<notin> set pages"
  shows "length (extract_pdf_info (PdfDoc metadata pages) pdf_path sharepoint_links) =
           length pages \<and>
         map (\<lambda>r. map_of r ''page_number'')
           (extract_pdf_info (PdfDoc metadata pages) pdf_path sharepoint_links) =
         map (\<lambda>n. Some (PInt (int n))) [1..<Suc (length pages)]"
  using assms
  by (simp add: extract_pdf_info_def pdf_try_def Let_def pages_loop_ok_length
      pages_loop_ok_numbers)

theorem pdf_one_record_per_page_witness:
  "PageError \<notin> set [PageText (Some ''a  b''), PageText None] \<and>
   length (extract_pdf_info (PdfDoc None [PageText (Some ''a  b''), PageText None])
     ''PDFs/r.pdf'' []) = 2 \<and>
   map (\<lambda>r. map_of r ''page_number'')
     (extract_pdf_info (PdfDoc None [PageText (Some ''a  b''), PageText None])
        ''PDFs/r.pdf'' []) =
   [Some (PInt 1), Some (PInt 2)]"
  using pdf_one_record_per_page
    [of "[PageText (Some ''a  b''), PageText None]" None "''PDFs/r.pdf''" "[]"]
  by (simp add: upt_rec)

lemma map_of_add_web_link:
  "map_of (add_web_link sp_data c) ''web_link'' =
     (case sp_data of
        None \<Rightarrow> map_of c ''web_link''
      | Some e \<Rightarrow>
          (case map_of e ''web_link'' of
             None \<Rightarrow> map_of c ''web_link''
           | Some w \<Rightarrow> if w \<noteq> [] then Some (PStr w) else map_of c ''web_link''))"
  by (auto simp: add_web_link_def map_of_dict_set split: option.splits)

text \<open>Every record of the result was built by lines 86 to 94, for some page.\<close>

lemma pages_loop_records:
  "r \<in> set (snd (pages_loop dt sp i ps acc)) \<Longrightarrow>
   r \<in> set acc \<or>
   (\<exists>k t. r = add_web_link sp
      (dict_of [(''source_type'', PStr ''pdf''), (''document_title'', PStr dt),
                (''page_number'', PInt (int k + 1)), (''text'', PStr t)]))"
proof (induction dt sp i ps acc rule: pages_loop.induct)
  case (3 dt sp i t ps acc)
  from "3.prems" have "r \<in> set (snd (pages_loop dt sp (i + 1) ps
     (acc @ [add_web_link sp (dict_of
        [(''source_type'', PStr ''pdf''), (''document_title'', PStr dt),
         (''page_number'', PInt (int i + 1)),
         (''text'', PStr (normalize_text (case t of Some s \<Rightarrow> s | None \<Rightarrow> [])))])])))"
    by (simp add: Let_def)
  from "3.IH" [OF refl refl this] show ?case by auto
qed simp_all

lemma extract_pdf_info_NoPdf: "extract_pdf_info NoPdf pdf_path links = []"
  by (simp add: extract_pdf_info_def pdf_try_def)

lemma extract_pdf_info_PdfDoc_records:
  assumes "r \<in> set (extract_pdf_info (PdfDoc md pages) pdf_path links)"
  shows "\<exists>k t. r = add_web_link (map_of links (lower (strip (basename pdf_path))))
      (dict_of [(''source_type'', PStr ''pdf''),
                (''document_title'', PStr (override_title
                   (map_of links (lower (strip (basename pdf_path))))
                   (metadata_title md (strip (basename pdf_path))))),
                (''page_number'', PInt (int k + 1)), (''text'', PStr t)])"
proof -
  from assms have "r \<in> set (snd (pages_loop
      (override_title (map_of links (lower (strip (basename pdf_path))))
         (metadata_title md (strip (basename pdf_path))))
      (map_of links (lower (strip (basename pdf_path)))) 0 pages []))"
    by (simp add: extract_pdf_info_def pdf_try_def Let_def)
  from pages_loop_records [OF this] show ?thesis by simp
qed

lemma extract_pdf_info_records:
  assumes "r \<in> set (extract_pdf_info pdf pdf_path links)"
  shows "\<exists>dt k t. r = add_web_link (map_of links (lower (strip (basename pdf_path))))
      (dict_of [(''source_type'', PStr ''pdf''), (''document_title'', PStr dt),
                (''page_number'', PInt (int k + 1)), (''text'', PStr t)])"
proof (cases pdf)
  case NoPdf
  with assms show ?thesis by (simp add: extract_pdf_info_NoPdf)
next
  case (PdfDoc md pages)
  with assms have "r \<in> set (extract_pdf_info (PdfDoc md pages) pdf_path links)" by simp
  from extract_pdf_info_PdfDoc_records [OF this] show ?thesis by blast
qed

lemma pdf_entry_fields:
  "map_of (dict_of [(''source_type'', PStr ''pdf''), (''document_title'', PStr dt),
                (''page_number'', PInt n), (''text'', PStr t)]) =
   [''source_type'' \<mapsto> PStr ''pdf'', ''document_title'' \<mapsto> PStr dt,
    ''page_number'' \<mapsto> PInt n, ''text'' \<mapsto> PStr t]"
  by (simp add: dict_of_def map_of_dict_set)

text \<open>
  Claim C5. A record emitted for a PDF carries a \<open>web_link\<close> field if and only if the
  registry has an entry under the trimmed, lower-cased basename of the path and that
  entry's \<open>web_link\<close> is non-empty; the field then holds the registry's value, in every
  record of the PDF; and when the registry has no entry under that key, no record
  carries the field.
\<close>

theorem pdf_web_link:
  assumes "r \<in> set (extract_pdf_info pdf pdf_path sharepoint_links)"
  shows "(map_of r ''web_link'' \<noteq> None \<longleftrightarrow>
            (\<exists>e w. map_of sharepoint_links (lower (strip (basename pdf_path))) = Some e \<and>
                   map_of e ''web_link'' = Some w \<and> w \<noteq> [])) \<and>
         (\<forall>e w. map_of sharepoint_links (lower (strip (basename pdf_path))) = Some e \<and>
                 map_of e ''web_link'' = Some w \<and> w \<noteq> [] \<longrightarrow>
                 map_of r ''web_link'' = Some (PStr w)) \<and>
         (map_of sharepoint_links (lower (strip (basename pdf_path))) = None \<longrightarrow>
            map_of r ''web_link'' = None)"
proof -
  from extract_pdf_info_records [OF assms] obtain dt k t where
    r: "r = add_web_link (map_of sharepoint_links (lower (strip (basename pdf_path))))
      (dict_of [(''source_type'', PStr ''pdf''), (''document_title'', PStr dt),
                (''page_number'', PInt (int k + 1)), (''text'', PStr t)])"
    by blast
  show ?thesis
    unfolding r map_of_add_web_link pdf_entry_fields
    by (auto split: option.splits)
qed

theorem pdf_web_link_witness:
  "[(''source_type'', PStr ''pdf''), (''document_title'', PStr ''Annual Report''),
    (''page_number'', PInt 1), (''text'', PStr ''a b''),
    (''web_link'', PStr ''https://x/report'')]
   \<in> set (extract_pdf_info (PdfDoc None [PageText (Some ''a  b'')]) ''PDFs/Report.pdf''
     [(''report.pdf'',
       [(''title'', ''Annual Report''), (''web_link'', ''https://x/report'')])]) \<and>
   map_of
     [(''report.pdf'', [(''title'', ''Annual Report''), (''web_link'', ''https://x/report'')])]
     (lower (strip (basename ''PDFs/Report.pdf''))) =
     Some [(''title'', ''Annual Report''), (''web_link'', ''https://x/report'')] \<and>
   map_of [(''source_type'', PStr ''pdf''), (''document_title'', PStr ''Annual Report''),
    (''page_number'', PInt 1), (''text'', PStr ''a b''),
    (''web_link'', PStr ''https://x/report'')] ''web_link'' = Some (PStr ''https://x/report'')"
proof -
  let ?r = "[(''source_type'', PStr ''pdf''), (''document_title'', PStr ''Annual Report''),
    (''page_number'', PInt 1), (''text'', PStr ''a b''),
    (''web_link'', PStr ''https://x/report'')]"
  let ?links =
    "[(''report.pdf'', [(''title'', ''Annual Report''), (''web_link'', ''https://x/report'')])]"
  have m: "?r \<in> set
      (extract_pdf_info (PdfDoc None [PageText (Some ''a  b'')]) ''PDFs/Report.pdf'' ?links)"
    by code_simp
  have k: "map_of ?links (lower (strip (basename ''PDFs/Report.pdf''))) =
     Some [(''title'', ''Annual Report''), (''web_link'', ''https://x/report'')]"
    by code_simp
  from pdf_web_link [OF m] k have "map_of ?r ''web_link'' = Some (PStr ''https://x/report'')"
    by simp
  with m k show ?thesis by simp
qed

lemma pdf_fields:
  assumes "r \<in> set (extract_pdf_info pdf pdf_path links)"
  shows "map_of r ''source_type'' = Some (PStr ''pdf'') \<and>
    (\<exists>t. map_of r ''document_title'' = Some (PStr t)) \<and>
    (\<exists>t. map_of r ''text'' = Some (PStr t)) \<and>
    (\<exists>n. n \<ge> 1 \<and> map_of r ''page_number'' = Some (PInt n)) \<and>
    map_of r ''url'' = None"
proof -
  from extract_pdf_info_records [OF assms] obtain dt k t where
    r: "r = add_web_link (map_of links (lower (strip (basename pdf_path))))
      (dict_of [(''source_type'', PStr ''pdf''), (''document_title'', PStr dt),
                (''page_number'', PInt (int k + 1)), (''text'', PStr t)])"
    by blast
  show ?thesis
    unfolding r by (simp add: map_of_add_web_link_other pdf_entry_fields)
qed

text \<open>
  The title of the records of a PDF: the registry entry's \<open>title\<close> whenever the entry
  has one, whatever it holds, and otherwise the non-empty metadata title or the file
  name without its extension.
\<close>

lemma pdf_title:
  assumes "r \<in> set (extract_pdf_info (PdfDoc md pages) pdf_path links)"
  shows "map_of r ''document_title'' =
     Some (PStr (override_title (map_of links (lower (strip (basename pdf_path))))
        (metadata_title md (strip (basename pdf_path)))))"
proof -
  from extract_pdf_info_PdfDoc_records [OF assms] obtain k t where
    "r = add_web_link (map_of links (lower (strip (basename pdf_path))))
      (dict_of [(''source_type'', PStr ''pdf''),
                (''document_title'', PStr (override_title
                   (map_of links (lower (strip (basename pdf_path))))
                   (metadata_title md (strip (basename pdf_path))))),
                (''page_number'', PInt (int k + 1)), (''text'', PStr t)])"
    by blast
  then show ?thesis
    by (simp add: map_of_add_web_link_other pdf_entry_fields)
qed

text \<open>
  Claim C1. The precedence of the claim fails on a registry entry whose title is
  empty: the row \<open>a.pdf,,https://x/a\<close> of the registry file makes every record of
  \<open>a.pdf\<close> carry the empty title, although the PDF has the metadata title
  \<open>Embedded Title\<close> and the file name gives \<open>a\<close>.
\<close>

theorem pdf_title_empty_registry_title:
  "extract_pdf_info
     (PdfDoc (Some (Metadata (Some ''Embedded Title''))) [PageText (Some ''text'')])
     ''PDFs/a.pdf''
     (load_sharepoint_links
        (CsvFile [Line [''Document Name'', ''Title'', ''Web Link''],
                  Line [''a.pdf'', [], ''https://x/a'']])) =
   [[(''source_type'', PStr ''pdf''), (''document_title'', PStr []),
     (''page_number'', PInt 1), (''text'', PStr ''text''),
     (''web_link'', PStr ''https://x/a'')]]"
  by code_simp

section \<open>Properties of extract_web_info\<close>

lemma web_fields:
  assumes "r \<in> set (extract_web_info response url)"
  shows "map_of r ''source_type'' = Some (PStr ''web'') \<and>
    (\<exists>t. map_of r ''document_title'' = Some (PStr t)) \<and>
    (\<exists>t. map_of r ''text'' = Some (PStr t)) \<and>
    map_of r ''page_number'' = Some PNone \<and>
    map_of r ''url'' = Some (PStr url) \<and> map_of r ''web_link'' = None"
  using assms
  by (cases response)
    (auto simp add: extract_web_info_def web_try_def Let_def dict_of_def map_of_dict_set)

text \<open>
  Claim C6, as amended. For a fetched page, the title of the record is the text of the
  page's title element, trimmed, whenever the page has a title element, also when that
  text is empty; it is the URL when the page has no title element.
\<close>

theorem web_title_is_trimmed_tag_text:
  "map (\<lambda>r. map_of r ''document_title'')
     (extract_web_info (Fetched (WebPage (Some t) strings)) url) = [Some (PStr (strip t))] \<and>
   map (\<lambda>r. map_of r ''document_title'')
     (extract_web_info (Fetched (WebPage None strings)) url) = [Some (PStr url)]"
  by (simp add: extract_web_info_def web_try_def Let_def dict_of_def map_of_dict_set)

text \<open>
  Claim C6 as stated fails: a title element whose text is blank gives the empty title,
  not the URL.
\<close>

theorem web_title_blank_tag:
  "strip ''  '' = [] \<and>
   extract_web_info (Fetched (WebPage (Some ''  '') [''Hello'', ''world'']))
     ''https://example.com'' =
   [[(''source_type'', PStr ''web''), (''document_title'', PStr []),
     (''page_number'', PNone), (''text'', PStr ''Hello world''),
     (''url'', PStr ''https://example.com'')]] \<and>
   PStr [] \<noteq> PStr ''https://example.com''"
  by code_simp

text \<open>
  Claim C7. For every URL the function returns at most one record: none when the
  request fails, and on success one record with the source type \<open>web\<close>, the page
  number \<open>None\<close> and the URL it was given. Every exception of the \<open>try\<close> block is a
  case of \<open>web_try\<close>, and the function returns a list in each.
\<close>

theorem web_at_most_one_record:
  "length (extract_web_info response url) \<le> 1 \<and>
   extract_web_info FetchError url = [] \<and>
   (\<exists>r. extract_web_info (Fetched soup) url = [r] \<and>
        map_of r ''source_type'' = Some (PStr ''web'') \<and>
        map_of r ''page_number'' = Some PNone \<and>
        map_of r ''url'' = Some (PStr url))"
  by (cases response)
    (simp_all add: extract_web_info_def web_try_def Let_def dict_of_def map_of_dict_set)

section \<open>The invariant of the records\<close>

text \<open>
  Claim C8. In every record that either extractor emits, the source type, the title
  and the text are present; the page number is present exactly in the records of
  source type \<open>pdf\<close>, and the URL exactly in those of source type \<open>web\<close>.
\<close>

theorem record_invariant:
  assumes "r \<in> set (extract_pdf_info pdf pdf_path links) \<union>
               set (extract_web_info response url)"
  shows "(map_of r ''source_type'' = Some (PStr ''pdf'') \<or>
          map_of r ''source_type'' = Some (PStr ''web'')) \<and>
    field_present r ''source_type'' \<and>
    field_present r ''document_title'' \<and>
    field_present r ''text'' \<and>
    (field_present r ''page_number'' \<longleftrightarrow> map_of r ''source_type'' = Some (PStr ''pdf'')) \<and>
    (field_present r ''url'' \<longleftrightarrow> map_of r ''source_type'' = Some (PStr ''web''))"
proof -
  from assms consider "r \<in> set (extract_pdf_info pdf pdf_path links)"
    | "r \<in> set (extract_web_info response url)"
    by blast
  then show ?thesis
  proof cases
    case 1
    from pdf_fields [OF 1] show ?thesis by (auto simp: field_present_def)
  next
    case 2
    from web_fields [OF 2] show ?thesis by (auto simp: field_present_def)
  qed
qed

theorem record_invariant_witness:
  "[(''source_type'', PStr ''web''), (''document_title'', PStr ''Example''),
    (''page_number'', PNone), (''text'', PStr ''Hello world''),
    (''url'', PStr ''https://example.com'')]
   \<in> set (extract_pdf_info NoPdf ''PDFs/a.pdf'' []) \<union>
     set (extract_web_info (Fetched (WebPage (Some ''Example'') [''Hello'', ''world'']))
            ''https://example.com'') \<and>
   \<not> field_present
     [(''source_type'', PStr ''web''), (''document_title'', PStr ''Example''),
      (''page_number'', PNone), (''text'', PStr ''Hello world''),
      (''url'', PStr ''https://example.com'')] ''page_number'' \<and>
   field_present
     [(''source_type'', PStr ''web''), (''document_title'', PStr ''Example''),
      (''page_number'', PNone), (''text'', PStr ''Hello world''),
      (''url'', PStr ''https://example.com'')] ''url''"
proof -
  let ?r = "[(''source_type'', PStr ''web''), (''document_title'', PStr ''Example''),
    (''page_number'', PNone), (''text'', PStr ''Hello world''),
    (''url'', PStr ''https://example.com'')]"
  have m: "?r \<in> set (extract_pdf_info NoPdf ''PDFs/a.pdf'' []) \<union>
     set (extract_web_info (Fetched (WebPage (Some ''Example'') [''Hello'', ''world'']))
            ''https://example.com'')"
    by code_simp
  from record_invariant [OF m] m show ?thesis by simp
qed

section \<open>Properties of load_sharepoint_links\<close>

lemma dict_set_fresh: "k \<notin> fst ` set d \<Longrightarrow> dict_set d k v = d @ [(k, v)]"
  unfolding dict_set_def by (induction d) auto

lemma foldl_dict_set_distinct:
  "distinct (map fst (d @ kvs)) \<Longrightarrow> foldl (\<lambda>d (k, v). dict_set d k v) d kvs = d @ kvs"
proof (induction kvs arbitrary: d)
  case Nil
  show ?case by simp
next
  case (Cons kv kvs)
  obtain k v where kv: "kv = (k, v)" by (cases kv)
  from Cons.prems kv have fresh: "k \<notin> fst ` set d" by auto
  from Cons.prems kv have "distinct (map fst ((d @ [(k, v)]) @ kvs))" by simp
  from Cons.IH [OF this] fresh kv show ?case
    by (simp add: dict_set_fresh)
qed

lemma dict_of_distinct: "distinct (map fst kvs) \<Longrightarrow> dict_of kvs = kvs"
  using foldl_dict_set_distinct [of "[]" kvs] by (simp add: dict_of_def)

lemma strip_keys_zip:
  "[(strip key, v). (Some key, v) \<leftarrow> zip (map Some h) vs] = zip (map strip h) vs"
proof (induction h arbitrary: vs)
  case Nil
  show ?case by simp
next
  case (Cons x h)
  then show ?case by (cases vs) simp_all
qed

lemma map_fst_zip_le: "length xs \<le> length ys \<Longrightarrow> map fst (zip xs ys) = xs"
  by (induction xs arbitrary: ys) (auto simp: Suc_le_length_iff)

lemma distinct_strip_header: "distinct (map strip h) \<Longrightarrow> distinct h"
  by (rule distinct_map [THEN iffD1, THEN conjunct1])

lemma dictreader_row_complete:
  assumes d: "distinct (map strip h)" and c: "length h \<le> length row"
  shows "strip_keys (dictreader_row h row) = zip (map strip h) (map Given row)"
proof -
  let ?z = "zip (map Some h) (map Given row)"
  from c have keys: "map fst ?z = map Some h"
    by (simp add: map_fst_zip_le)
  from d have "distinct (map Some h)"
    by (simp add: distinct_map distinct_strip_header)
  with keys have z: "dict_of ?z = ?z"
    by (simp add: dict_of_distinct)
  have fresh: "None \<notin> fst ` set ?z"
    using keys by (metis ex_map_conv list.set_map option.distinct(1))
  have r: "dictreader_row h row = ?z \<or>
           dictreader_row h row = ?z @ [(None, Surplus (drop (length h) row))]"
    using c by (auto simp: dictreader_row_def Let_def z dict_set_fresh [OF fresh])
  have "[(strip key, v). (Some key, v) \<leftarrow> dictreader_row h row] =
        zip (map strip h) (map Given row)"
    using r by (auto simp: strip_keys_zip)
  moreover from c have "map fst (zip (map strip h) (map Given row)) = map strip h"
    by (simp add: map_fst_zip_le)
  ultimately show ?thesis
    using d by (simp add: strip_keys_def dict_of_distinct)
qed

lemma map_of_zip_Given:
  "map_of (zip ks (map Given row)) name = map_option Given (map_of (zip ks row) name)"
proof (induction ks arbitrary: row)
  case Nil
  show ?case by simp
next
  case (Cons k ks)
  then show ?case by (cases row) simp_all
qed

lemma map_of_zip_in:
  "name \<in> set ks \<Longrightarrow> length ks \<le> length row \<Longrightarrow> \<exists>v. map_of (zip ks row) name = Some v"
proof (induction ks arbitrary: row)
  case Nil
  then show ?case by simp
next
  case (Cons k ks)
  then show ?case by (cases row) auto
qed

lemma get_strip_complete:
  "get_strip (zip (map strip h) (map Given row)) name = Inr (strip (column h name row))"
  by (simp add: get_strip_def column_def map_of_zip_Given split: option.splits)

lemma doc_name_complete:
  assumes "''Document Name'' \<in> set (map strip h)" and "length h \<le> length row"
  shows "map_of (zip (map strip h) (map Given row)) ''Document Name'' =
         Some (Given (column h ''Document Name'' row))"
proof -
  from map_of_zip_in [OF assms(1), of row] assms(2)
  obtain v where "map_of (zip (map strip h) row) ''Document Name'' = Some v" by auto
  then show ?thesis by (simp add: map_of_zip_Given column_def)
qed

lemma store_row_complete:
  assumes "''Document Name'' \<in> set (map strip h)" and "length h \<le> length row"
  shows "store_row (zip (map strip h) (map Given row)) mapping =
         Inr (dict_set mapping (row_key h row) (row_entry h row))"
  by (simp add: store_row_def doc_name_complete [OF assms] get_strip_complete Let_def
      row_key_def row_entry_def dict_of_def dict_set_def)

text \<open>The loop over complete rows under a well-formed header.\<close>

lemma rows_loop_complete:
  assumes wf: "well_formed_header h"
    and c: "\<forall>row \<in> set rows. complete_row h row"
  shows "rows_loop h (map Line rows) (mapping, out) =
     (None,
      foldl (\<lambda>m row. dict_set m (row_key h row) (row_entry h row)) mapping
        (filter (\<lambda>row. column h ''Document Name'' row \<noteq> []) rows),
      out @ map (\<lambda>row. NoDocumentName (zip (map strip h) (map Given row)))
        (filter (\<lambda>row. column h ''Document Name'' row = []) rows))"
  using c
proof (induction rows arbitrary: mapping out)
  case Nil
  show ?case by simp
next
  case (Cons row rows)
  from wf have d: "distinct (map strip h)" and dn: "''Document Name'' \<in> set (map strip h)"
    by (simp_all add: well_formed_header_def)
  from Cons.prems have len: "length h \<le> length row"
    by (simp add: complete_row_def)
  from dn have "h \<noteq> []" by auto
  with len obtain f fs where row: "row = f # fs" by (cases row) auto
  have rd: "strip_keys (dictreader_row h (f # fs)) = zip (map strip h) (map Given (f # fs))"
    using dictreader_row_complete [OF d len] row by simp
  from Cons.prems have rest: "\<forall>row \<in> set rows. complete_row h row" by simp
  show ?case
  proof (cases "column h ''Document Name'' row = []")
    case True
    with Cons.IH [OF rest] show ?thesis
      unfolding row map_of.simps list.map rows_loop.simps rd Let_def
      using doc_name_complete [OF dn len] row
      by (simp add: not_doc_name_def)
  next
    case False
    with Cons.IH [OF rest] show ?thesis
      unfolding row list.map rows_loop.simps rd Let_def
      using doc_name_complete [OF dn len] store_row_complete [OF dn len] row
      by (simp add: not_doc_name_def)
  qed
qed

lemma load_complete:
  assumes wf: "well_formed_header h"
    and c: "\<forall>row \<in> set rows. complete_row h row"
  shows "load_sharepoint_links (CsvFile (Line h # map Line rows)) =
     foldl (\<lambda>m row. dict_set m (row_key h row) (row_entry h row)) []
        (filter (\<lambda>row. column h ''Document Name'' row \<noteq> []) rows)"
    and "load_diagnostics (CsvFile (Line h # map Line rows)) =
     Headers (Some h) # map (\<lambda>row. NoDocumentName (zip (map strip h) (map Given row)))
        (filter (\<lambda>row. column h ''Document Name'' row = []) rows)"
  by (simp_all add: load_sharepoint_links_def load_diagnostics_def load_try_def
      rows_loop_complete [OF wf c])

lemma foldl_dict_set_rows:
  "foldl (\<lambda>m row. dict_set m (key row) (val row)) m rows =
   foldl (\<lambda>d (k, v). dict_set d k v) m (map (\<lambda>row. (key row, val row)) rows)"
  by (induction rows arbitrary: m) simp_all

lemma map_of_foldl_dict_set:
  "map_of (foldl (\<lambda>d (k, v). dict_set d k v) m kvs) = map_of m ++ map_of (rev kvs)"
proof (induction kvs arbitrary: m)
  case Nil
  show ?case by simp
next
  case (Cons kv kvs)
  obtain k v where kv: "kv = (k, v)" by (cases kv)
  show ?case
    unfolding kv by (simp add: Cons.IH map_of_dict_set map_add_upd_left fun_eq_iff map_add_def split: option.splits)
qed

lemma distinct_foldl_dict_set:
  "distinct (map fst m) \<Longrightarrow> distinct (map fst (foldl (\<lambda>d (k, v). dict_set d k v) m kvs))"
proof (induction kvs arbitrary: m)
  case Nil
  then show ?case by simp
next
  case (Cons kv kvs)
  obtain k v where kv: "kv = (k, v)" by (cases kv)
  from Cons.prems have "distinct (map fst (dict_set m k v))"
    by (simp add: dict_set_def distinct_update)
  from Cons.IH [OF this] kv show ?case by simp
qed

lemma keys_dict_set: "fst ` set (dict_set d k v) = insert k (fst ` set d)"
  by (simp add: dict_set_def dom_update)

lemma keys_foldl_dict_set:
  "fst ` set (foldl (\<lambda>d (k, v). dict_set d k v) m kvs) = fst ` set m \<union> fst ` set kvs"
proof (induction kvs arbitrary: m)
  case Nil
  show ?case by simp
next
  case (Cons kv kvs)
  obtain k v where kv: "kv = (k, v)" by (cases kv)
  have "fst ` set (foldl (\<lambda>d (k, v). dict_set d k v) (dict_set m k v) kvs) =
        fst ` set (dict_set m k v) \<union> fst ` set kvs"
    by (rule Cons.IH)
  then show ?case
    unfolding kv by (simp add: keys_dict_set)
qed

text \<open>Under a key that no later pair has, the dictionary holds the value of the pair.\<close>

lemma map_of_foldl_dict_set_last:
  assumes "k \<notin> fst ` set zs"
  shows "map_of (foldl (\<lambda>d (k, v). dict_set d k v) m (ys @ (k, v) # zs)) k = Some v"
proof -
  from assms have "map_of (rev zs) k = None"
    by (simp add: map_of_eq_None_iff)
  then show ?thesis
    by (simp add: map_of_foldl_dict_set map_of_dict_set map_add_def split: option.splits)
qed

lemma count_key_distinct:
  assumes "distinct (map fst d)" and "k \<in> fst ` set d"
  shows "length (filter (\<lambda>e. fst e = k) d) = 1"
  using assms
proof (induction d)
  case Nil
  then show ?case by simp
next
  case (Cons e d)
  show ?case
  proof (cases "fst e = k")
    case True
    with Cons.prems have "k \<notin> fst ` set d" by auto
    then have "filter (\<lambda>e. fst e = k) d = []"
      by (auto simp: filter_empty_conv)
    with True show ?thesis by simp
  next
    case False
    with Cons show ?thesis by auto
  qed
qed

lemma set_dict_set: "set (dict_set d k v) \<subseteq> insert (k, v) (set d)"
  unfolding dict_set_def by (induction d) auto

lemma set_foldl_dict_set:
  "set (foldl (\<lambda>d (k, v). dict_set d k v) m kvs) \<subseteq> set m \<union> set kvs"
proof (induction kvs arbitrary: m)
  case Nil
  show ?case by simp
next
  case (Cons kv kvs)
  obtain k v where kv: "kv = (k, v)" by (cases kv)
  have "set (foldl (\<lambda>d (k, v). dict_set d k v) (dict_set m k v) kvs) \<subseteq>
        set (dict_set m k v) \<union> set kvs"
    by (rule Cons.IH)
  with set_dict_set [of m k v] show ?case
    unfolding kv by auto
qed





text \<open>
  Claim C3, as amended. For a registry file with a well-formed header whose rows are
  all complete and have a non-empty document name, the mapping has exactly one entry
  for each distinct document name, trimmed and lower-cased; every entry is keyed by the
  trimmed, lower-cased document name of a row and holds the trimmed title and link of
  that row; and when these names are pairwise distinct, the mapping has exactly one
  entry per row, in the order of the rows.
\<close>

theorem load_one_entry_per_name:
  assumes wf: "well_formed_header h"
    and rows: "\<forall>row \<in> set rows. complete_row h row \<and> column h ''Document Name'' row \<noteq> []"
  shows "distinct (map fst (load_sharepoint_links (CsvFile (Line h # map Line rows)))) \<and>
         fst ` set (load_sharepoint_links (CsvFile (Line h # map Line rows))) =
           row_key h ` set rows \<and>
         set (load_sharepoint_links (CsvFile (Line h # map Line rows))) \<subseteq>
           (\<lambda>row. (row_key h row, row_entry h row)) ` set rows \<and>
         (distinct (map (row_key h) rows) \<longrightarrow>
           load_sharepoint_links (CsvFile (Line h # map Line rows)) =
             map (\<lambda>row. (row_key h row, row_entry h row)) rows)"
proof -
  let ?kvs = "map (\<lambda>row. (row_key h row, row_entry h row)) rows"
  from rows have c: "\<forall>row \<in> set rows. complete_row h row" by simp
  from rows have f: "filter (\<lambda>row. column h ''Document Name'' row \<noteq> []) rows = rows"
    by (simp add: filter_id_conv)
  have l: "load_sharepoint_links (CsvFile (Line h # map Line rows)) =
           foldl (\<lambda>d (k, v). dict_set d k v) [] ?kvs"
    by (simp add: load_complete(1) [OF wf c] f foldl_dict_set_rows)
  have 1: "distinct (map fst (foldl (\<lambda>d (k, v). dict_set d k v) [] ?kvs))"
    by (rule distinct_foldl_dict_set) simp
  have 2: "fst ` set (foldl (\<lambda>d (k, v). dict_set d k v) [] ?kvs) = row_key h ` set rows"
    by (simp add: keys_foldl_dict_set image_image)
  have 3: "set (foldl (\<lambda>d (k, v). dict_set d k v) [] ?kvs) \<subseteq>
           (\<lambda>row. (row_key h row, row_entry h row)) ` set rows"
    using set_foldl_dict_set [of "[]" ?kvs] by simp
  have 4: "distinct (map (row_key h) rows) \<longrightarrow>
           foldl (\<lambda>d (k, v). dict_set d k v) [] ?kvs = ?kvs"
    using foldl_dict_set_distinct [of "[]" ?kvs] by (simp add: comp_def)
  from 1 2 3 4 show ?thesis
    unfolding l by blast
qed

theorem load_one_entry_per_name_witness:
  "well_formed_header [''Document Name'', ''Title'', ''Web Link''] \<and>
   complete_row [''Document Name'', ''Title'', ''Web Link''] ['' A.pdf'', '' First '', ''L1''] \<and>
   complete_row [''Document Name'', ''Title'', ''Web Link''] [''b.pdf'', ''Second'', ''L2 ''] \<and>
   load_sharepoint_links
     (CsvFile (Line [''Document Name'', ''Title'', ''Web Link''] #
        map Line [['' A.pdf'', '' First '', ''L1''], [''b.pdf'', ''Second'', ''L2 '']])) =
   [(''a.pdf'', [(''title'', ''First''), (''web_link'', ''L1'')]),
    (''b.pdf'', [(''title'', ''Second''), (''web_link'', ''L2'')])]"
proof -
  let ?h = "[''Document Name'', ''Title'', ''Web Link'']"
  let ?rows = "[['' A.pdf'', '' First '', ''L1''], [''b.pdf'', ''Second'', ''L2 '']]"
  have wf: "well_formed_header ?h"
    by code_simp
  have rows: "\<forall>row \<in> set ?rows. complete_row ?h row \<and> column ?h ''Document Name'' row \<noteq> []"
    by code_simp
  have d: "distinct (map (row_key ?h) ?rows)"
    by code_simp
  have m: "map (\<lambda>row. (row_key ?h row, row_entry ?h row)) ?rows =
     [(''a.pdf'', [(''title'', ''First''), (''web_link'', ''L1'')]),
      (''b.pdf'', [(''title'', ''Second''), (''web_link'', ''L2'')])]"
    by code_simp
  have c: "complete_row ?h ['' A.pdf'', '' First '', ''L1''] \<and>
           complete_row ?h [''b.pdf'', ''Second'', ''L2 '']"
    by code_simp
  from load_one_entry_per_name [OF wf rows] d
  have "load_sharepoint_links (CsvFile (Line ?h # map Line ?rows)) =
        map (\<lambda>row. (row_key ?h row, row_entry ?h row)) ?rows"
    by blast
  with m wf c show ?thesis by (simp only:)
qed

text \<open>
  Claim C3 as stated fails: two rows whose document names differ only in case and
  surrounding blanks give one entry, not two.
\<close>

theorem load_duplicate_names_one_entry:
  "well_formed_header [''Document Name'', ''Title'', ''Web Link''] \<and>
   load_sharepoint_links (CsvFile [Line [''Document Name'', ''Title'', ''Web Link''],
                                   Line [''a.pdf'', ''First'', ''L1''],
                                   Line ['' A.PDF '', ''Second'', ''L2'']]) =
     [(''a.pdf'', [(''title'', ''Second''), (''web_link'', ''L2'')])] \<and>
   length (load_sharepoint_links (CsvFile [Line [''Document Name'', ''Title'', ''Web Link''],
                                   Line [''a.pdf'', ''First'', ''L1''],
                                   Line ['' A.PDF '', ''Second'', ''L2'']])) \<noteq>
   length [[''a.pdf'', ''First'', ''L1''], ['' A.PDF '', ''Second'', ''L2'']]"
  by code_simp

text \<open>
  Claim C10, as amended. Under a well-formed header and with complete rows, when two
  rows with a non-empty document name have the same trimmed, lower-cased name and no
  later row with a non-empty document name has it, the mapping holds exactly one entry
  under that name, with the title and the link of the later row; and the diagnostics
  are the header line and one line for each row with an empty document name, so the
  overwriting prints nothing.
\<close>

theorem load_last_row_wins:
  assumes wf: "well_formed_header h"
    and c: "\<forall>row \<in> set rows. complete_row h row"
    and split: "rows = xs @ r1 # ys @ r2 # zs"
    and n1: "column h ''Document Name'' r1 \<noteq> []"
    and n2: "column h ''Document Name'' r2 \<noteq> []"
    and same: "row_key h r1 = row_key h r2"
    and last: "\<forall>row \<in> set zs. column h ''Document Name'' row \<noteq> [] \<longrightarrow>
                 row_key h row \<noteq> row_key h r2"
  shows "length (filter (\<lambda>e. fst e = row_key h r2)
           (load_sharepoint_links (CsvFile (Line h # map Line rows)))) = 1 \<and>
         map_of (load_sharepoint_links (CsvFile (Line h # map Line rows))) (row_key h r2) =
           Some (row_entry h r2) \<and>
         load_diagnostics (CsvFile (Line h # map Line rows)) =
           Headers (Some h) #
           map (\<lambda>row. NoDocumentName (zip (map strip h) (map Given row)))
             (filter (\<lambda>row. column h ''Document Name'' row = []) rows)"
proof -
  let ?named = "filter (\<lambda>row. column h ''Document Name'' row \<noteq> [])"
  let ?kv = "\<lambda>row. (row_key h row, row_entry h row)"
  have l: "load_sharepoint_links (CsvFile (Line h # map Line rows)) =
           foldl (\<lambda>d (k, v). dict_set d k v) [] (map ?kv (?named rows))"
    by (simp add: load_complete(1) [OF wf c] foldl_dict_set_rows)
  from n1 n2 have kvs: "map ?kv (?named rows) =
      (map ?kv (?named xs) @ ?kv r1 # map ?kv (?named ys)) @
      (row_key h r2, row_entry h r2) # map ?kv (?named zs)"
    by (simp add: split)
  from last have fresh: "row_key h r2 \<notin> fst ` set (map ?kv (?named zs))"
    by (auto simp: image_image)
  have v: "map_of (load_sharepoint_links (CsvFile (Line h # map Line rows))) (row_key h r2) =
           Some (row_entry h r2)"
    unfolding l kvs by (rule map_of_foldl_dict_set_last [OF fresh])
  have d: "distinct (map fst (load_sharepoint_links (CsvFile (Line h # map Line rows))))"
    unfolding l by (rule distinct_foldl_dict_set) simp
  from v have "row_key h r2 \<in> fst ` set (load_sharepoint_links (CsvFile (Line h # map Line rows)))"
    by (metis map_of_eq_None_iff option.distinct(1))
  with d have "length (filter (\<lambda>e. fst e = row_key h r2)
           (load_sharepoint_links (CsvFile (Line h # map Line rows)))) = 1"
    by (rule count_key_distinct)
  with v load_complete(2) [OF wf c] show ?thesis by simp
qed

theorem load_last_row_wins_witness:
  "well_formed_header [''Document Name'', ''Title'', ''Web Link''] \<and>
   row_key [''Document Name'', ''Title'', ''Web Link''] [''a.pdf'', ''First'', ''L1''] =
   row_key [''Document Name'', ''Title'', ''Web Link''] ['' A.PDF '', ''Second'', ''L2''] \<and>
   length (filter (\<lambda>e. fst e = ''a.pdf'')
     (load_sharepoint_links
       (CsvFile (Line [''Document Name'', ''Title'', ''Web Link''] #
          map Line [[''a.pdf'', ''First'', ''L1''], ['' A.PDF '', ''Second'', ''L2'']])))) = 1 \<and>
   map_of
     (load_sharepoint_links
       (CsvFile (Line [''Document Name'', ''Title'', ''Web Link''] #
          map Line [[''a.pdf'', ''First'', ''L1''], ['' A.PDF '', ''Second'', ''L2'']])))
     ''a.pdf'' = Some [(''title'', ''Second''), (''web_link'', ''L2'')] \<and>
   load_diagnostics
       (CsvFile (Line [''Document Name'', ''Title'', ''Web Link''] #
          map Line [[''a.pdf'', ''First'', ''L1''], ['' A.PDF '', ''Second'', ''L2'']])) =
     [Headers (Some [''Document Name'', ''Title'', ''Web Link''])]"
proof -
  let ?h = "[''Document Name'', ''Title'', ''Web Link'']"
  let ?r1 = "[''a.pdf'', ''First'', ''L1'']"
  let ?r2 = "['' A.PDF '', ''Second'', ''L2'']"
  have wf: "well_formed_header ?h"
    by code_simp
  have c: "\<forall>row \<in> set [?r1, ?r2]. complete_row ?h row"
    by code_simp
  have split: "[?r1, ?r2] = [] @ ?r1 # [] @ ?r2 # []"
    by simp
  have n1: "column ?h ''Document Name'' ?r1 \<noteq> []"
    by code_simp
  have n2: "column ?h ''Document Name'' ?r2 \<noteq> []"
    by code_simp
  have same: "row_key ?h ?r1 = row_key ?h ?r2"
    by code_simp
  have last: "\<forall>row \<in> set []. column ?h ''Document Name'' row \<noteq> [] \<longrightarrow>
                 row_key ?h row \<noteq> row_key ?h ?r2"
    by simp
  have k: "row_key ?h ?r2 = ''a.pdf''"
    by code_simp
  have e: "row_entry ?h ?r2 = [(''title'', ''Second''), (''web_link'', ''L2'')]"
    by code_simp
  have f: "filter (\<lambda>row. column ?h ''Document Name'' row = []) [?r1, ?r2] = []"
    by code_simp
  from load_last_row_wins [OF wf c split n1 n2 same last] wf same
  show ?thesis
    unfolding k e f by simp
qed

text \<open>
  Claim C10 as stated fails. The document names \<open>"  "\<close> and \<open>""\<close> are equal after
  trimming and lower-casing, but line 34 passes over the row with the empty name, with
  a diagnostic, so the entry holds the title and the link of the earlier row. And when
  a line between two rows of the same name cannot be read, the load ends there and the
  entry is that of the earlier row.
\<close>

theorem load_blank_name_or_error_first_row_kept:
  "lower (strip ''  '') = lower (strip []) \<and>
   load_sharepoint_links (CsvFile [Line [''Document Name'', ''Title'', ''Web Link''],
                                   Line [''  '', ''First'', ''L1''],
                                   Line [[], ''Second'', ''L2'']]) =
     [([], [(''title'', ''First''), (''web_link'', ''L1'')])] \<and>
   load_diagnostics (CsvFile [Line [''Document Name'', ''Title'', ''Web Link''],
                              Line [''  '', ''First'', ''L1''],
                              Line [[], ''Second'', ''L2'']]) =
     [Headers (Some [''Document Name'', ''Title'', ''Web Link'']),
      NoDocumentName [(''Document Name'', Given []), (''Title'', Given ''Second''),
                      (''Web Link'', Given ''L2'')]] \<and>
   lower (strip ''a.pdf'') = lower (strip ''A.PDF'') \<and>
   load_sharepoint_links (CsvFile [Line [''Document Name'', ''Title'', ''Web Link''],
                                   Line [''a.pdf'', ''First'', ''L1''],
                                   BadLine,
                                   Line [''A.PDF'', ''Second'', ''L2'']]) =
     [(''a.pdf'', [(''title'', ''First''), (''web_link'', ''L1'')])]"
  by code_simp




end
